theory Spec2Isabelle
  imports Complex_Main
begin

section \<open>The window stress program: data model\<close>

text \<open>
  The program is one translation unit, \<^verbatim>\<open>main.cpp\<close>: a pool of windows is created with
  a random layout, then a frame loop jitters, clamps and redraws every window until a quit
  condition fires. Everything outside the translation unit (the windowing library, the
  random engine, the clock) is an oracle of the record \<open>world\<close>; every call the program
  makes to the outside is appended to a trace.

  Conventions of the embedding:
  \<^item> C++ \<^verbatim>\<open>int\<close> is \<open>int\<close>: the values are display coordinates and sizes, far from
    the 32-bit limits.
  \<^item> \<^verbatim>\<open>float\<close> and \<^verbatim>\<open>double\<close> are \<open>real\<close>: rounding is not modelled.
  \<^item> A window handle (\<^verbatim>\<open>GLFWwindow*\<close>) is a \<open>nat\<close>, the null pointer is \<open>0\<close>.
  \<^item> The fields of \<^verbatim>\<open>struct Win\<close> carry the prefix \<open>win_\<close>, since a record field is a
    global constant and the source's names are single letters.
\<close>

record Win =
  handle :: nat
  win_r :: real
  win_g :: real
  win_b :: real
  win_x :: int
  win_y :: int
  win_w :: int
  win_h :: int

definition WINDOW_COUNT :: nat where "WINDOW_COUNT = 100"
definition TARGET_FPS :: real where "TARGET_FPS = 60"
definition MIN_SIZE :: int where "MIN_SIZE = 80"
definition MAX_SIZE :: int where "MAX_SIZE = 220"
definition JITTER_POS :: int where "JITTER_POS = 8"
definition JITTER_SIZE :: int where "JITTER_SIZE = 40"

text \<open>The values of the library's key and action codes, from its header.\<close>

definition GLFW_PRESS :: int where "GLFW_PRESS = 1"
definition GLFW_KEY_ESCAPE :: int where "GLFW_KEY_ESCAPE = 256"
definition GLFW_KEY_Q :: int where "GLFW_KEY_Q = 81"

datatype hint =
  GLFW_COCOA_RETINA_FRAMEBUFFER | GLFW_VISIBLE | GLFW_DECORATED | GLFW_RESIZABLE
  | GLFW_DOUBLEBUFFER

text \<open>
  One constructor for each call the program makes to the outside. \<open>glfwCreateWindow\<close>
  carries the handle the library returned as its last argument.
\<close>

datatype call =
    glfwWindowHint hint bool
  | glfwInit
  | glfwGetPrimaryMonitor
  | glfwGetMonitorWorkarea
  | glfwCreateWindow int int string nat
  | glfwSetWindowPos nat int int
  | glfwSetKeyCallback nat
  | glfwMakeContextCurrent nat
  | glfwSwapInterval int
  | glfwPollEvents
  | glfwWindowShouldClose nat
  | glfwSetWindowSize nat int int
  | glViewport int int int int
  | glClearColor real real real real
  | glClear
  | glfwSwapBuffers nat
  | sleep_for real
  | glfwDestroyWindow nat
  | glfwTerminate
  | fprintf_stderr string

text \<open>A key event as the library hands it to the key callback.\<close>

record key_event =
  ev_window :: nat
  ev_key :: int
  ev_scancode :: int
  ev_action :: int
  ev_mods :: int

text \<open>
  The outside world. The random engine is read through its four distributions: the field
  gives the value a distribution returns when it makes the \<open>n\<close>-th draw from the engine.
  The event queue and the close flags are indexed by the frame. The clock is indexed by
  the reading, counted from the first frame: frame \<open>f\<close> reads it at \<open>2 * f\<close> and
  \<open>2 * f + 1\<close> (the reading that seeds the engine belongs to the engine's oracles).
\<close>

record world =
  init_ok :: bool
  workarea :: "int \<times> int \<times> int \<times> int"
  sizeRand :: "nat \<Rightarrow> int"
  uni01 :: "nat \<Rightarrow> real"
  jitterPos :: "nat \<Rightarrow> int"
  jitterSize :: "nat \<Rightarrow> int"
  created_handle :: "nat \<Rightarrow> nat"
  key_events :: "nat \<Rightarrow> key_event list"
  should_close :: "nat \<Rightarrow> nat \<Rightarrow> bool"
  clock_now :: "nat \<Rightarrow> real"

text \<open>
  The program's state: the vector \<open>wins\<close>, the global \<open>g_quit\<close>, the number of draws made
  from \<open>rng\<close>, the number of frames started, and the trace of calls made so far.
\<close>

record state =
  wins :: "Win list"
  g_quit :: bool
  rng :: nat
  frame_no :: nat
  trace :: "call list"

datatype error = Undefined_Behaviour

text \<open>
  What a run of \<open>main\<close> gives: the exit code with the trace, undefined behaviour, or a
  loop still running when the fuel is used up.
\<close>

datatype outcome = Exit int "call list" | Undefined | Running

section \<open>The program\<close>

subsection \<open>Library functions the program uses\<close>

text \<open>
  \<^verbatim>\<open>std::clamp(v, lo, hi)\<close> is \<^verbatim>\<open>(v < lo) ? lo : (hi < v) ? hi : v\<close>, and its behaviour is
  undefined when \<open>hi < lo\<close>.
\<close>

definition clamp :: "int \<Rightarrow> int \<Rightarrow> int \<Rightarrow> error + int" where
  "clamp v lo hi =
     (if hi < lo then Inl Undefined_Behaviour
      else Inr (if v < lo then lo else if hi < v then hi else v))"

text \<open>The conversion \<^verbatim>\<open>(int)\<close> of a floating-point value truncates towards zero.\<close>

definition to_int :: "real \<Rightarrow> int" where
  "to_int v = (if 0 \<le> v then \<lfloor>v\<rfloor> else \<lceil>v\<rceil>)"

text \<open>\<^verbatim>\<open>std::to_string\<close> on a number that is not negative.\<close>

definition digit_char :: "nat \<Rightarrow> char" where
  "digit_char d = ''0123456789'' ! d"

fun to_string :: "nat \<Rightarrow> string" where
  "to_string n =
     (if n < 10 then [digit_char n] else to_string (n div 10) @ [digit_char (n mod 10)])"

declare to_string.simps [simp del]

definition newline :: char where
  "newline = CHR 0x0A"

subsection \<open>The key callback\<close>

text \<open>The callback writes the global \<open>g_quit\<close>: it takes the flag and returns it.\<close>

definition key_callback :: "bool \<Rightarrow> key_event \<Rightarrow> bool" where
  "key_callback quit ev =
     (if ev_action ev = GLFW_PRESS then
        (if ev_key ev = GLFW_KEY_ESCAPE \<or> ev_key ev = GLFW_KEY_Q then True else quit)
      else quit)"

subsection \<open>Creating the windows\<close>

text \<open>
  The body of the loop \<^verbatim>\<open>for (int i = 0; i < WINDOW_COUNT; ++i)\<close>. It returns the new
  state, and \<open>False\<close> when the loop is left by \<^verbatim>\<open>break\<close> on a failed creation. A created
  window costs seven draws, a failed one four.
\<close>

definition create_window :: "world \<Rightarrow> nat \<Rightarrow> state \<Rightarrow> bool \<times> state" where
  "create_window e i s =
     (case workarea e of (workX, workY, workW, workH) \<Rightarrow>
        let n = rng s;
            w = sizeRand e n;
            h = sizeRand e (n + 1);
            x = workX + to_int (uni01 e (n + 2) * real_of_int (max 1 (workW - w)));
            y = workY + to_int (uni01 e (n + 3) * real_of_int (max 1 (workH - h)));
            win = created_handle e i;
            created = glfwCreateWindow w h (''Window '' @ to_string (i + 1)) win
        in if win = 0 then
             (False,
              s\<lparr>rng := n + 4,
                trace := trace s @
                  [created,
                   fprintf_stderr (''Failed to create window '' @ to_string (i + 1) @ [newline])]\<rparr>)
           else
             let r = uni01 e (n + 4);
                 g = uni01 e (n + 5);
                 b = uni01 e (n + 6)
             in (True,
                 s\<lparr>wins := wins s @
                      [\<lparr>handle = win, win_r = r, win_g = g, win_b = b,
                        win_x = x, win_y = y, win_w = w, win_h = h\<rparr>],
                   rng := n + 7,
                   trace := trace s @
                     [created, glfwSetWindowPos win x y, glfwSetKeyCallback win,
                      glfwMakeContextCurrent win, glfwSwapInterval 0]\<rparr>))"

text \<open>The loop itself, from the index \<open>i\<close>.\<close>

function create_windows :: "world \<Rightarrow> nat \<Rightarrow> state \<Rightarrow> state" where
  "create_windows e i s =
     (if i < WINDOW_COUNT then
        (case create_window e i s of
           (True, s') \<Rightarrow> create_windows e (i + 1) s'
         | (False, s') \<Rightarrow> s')
      else s)"
  by pat_completeness auto
termination
  by (relation "measure (\<lambda>(e, i, s). WINDOW_COUNT - i)") auto

declare create_windows.simps [simp del]

subsection \<open>One window in one frame\<close>

text \<open>
  The body of the per-window loop after the close test: four draws, four clamps, the two
  conditional calls, the stores and the rendering. It returns the updated record and the
  calls made.
\<close>

definition step_win :: "world \<Rightarrow> nat \<Rightarrow> Win \<Rightarrow> error + (Win \<times> call list)" where
  "step_win e n w =
     (case workarea e of (workX, workY, workW, workH) \<Rightarrow>
        let dw = jitterSize e n;
            dh = jitterSize e (n + 1);
            dx = jitterPos e (n + 2);
            dy = jitterPos e (n + 3)
        in case clamp (win_w w + dw) MIN_SIZE MAX_SIZE of Inl err \<Rightarrow> Inl err | Inr newW \<Rightarrow>
           case clamp (win_h w + dh) MIN_SIZE MAX_SIZE of Inl err \<Rightarrow> Inl err | Inr newH \<Rightarrow>
           case clamp (win_x w + dx) workX (workX + workW - newW) of Inl err \<Rightarrow> Inl err | Inr newX \<Rightarrow>
           case clamp (win_y w + dy) workY (workY + workH - newH) of Inl err \<Rightarrow> Inl err | Inr newY \<Rightarrow>
             Inr (w\<lparr>win_w := newW, win_h := newH, win_x := newX, win_y := newY\<rparr>,
                  (if newW \<noteq> win_w w \<or> newH \<noteq> win_h w
                   then [glfwSetWindowSize (handle w) newW newH] else []) @
                  (if newX \<noteq> win_x w \<or> newY \<noteq> win_y w
                   then [glfwSetWindowPos (handle w) newX newY] else []) @
                  [glfwMakeContextCurrent (handle w),
                   glViewport 0 0 newW newH,
                   glClearColor (win_r w) (win_g w) (win_b w) 1,
                   glClear,
                   glfwSwapBuffers (handle w)]))"

subsection \<open>The per-window pass of a frame\<close>

text \<open>
  The loop \<^verbatim>\<open>for (auto& w : wins)\<close> of frame \<open>f\<close>, from the flag \<open>quit\<close> and the draw
  counter \<open>n\<close>: it returns the records, the flag, the counter and the calls made. A window
  that wants to close sets the flag and leaves the loop.
\<close>

fun window_pass ::
  "world \<Rightarrow> nat \<Rightarrow> Win list \<Rightarrow> bool \<Rightarrow> nat \<Rightarrow> error + (Win list \<times> bool \<times> nat \<times> call list)" where
  "window_pass e f [] quit n = Inr ([], quit, n, [])"
| "window_pass e f (w # ws) quit n =
     (if should_close e f (handle w) then
        Inr (w # ws, True, n, [glfwWindowShouldClose (handle w)])
      else
        case step_win e n w of
          Inl err \<Rightarrow> Inl err
        | Inr (w', calls) \<Rightarrow>
            (case window_pass e f ws quit (n + 4) of
               Inl err \<Rightarrow> Inl err
             | Inr (ws', quit', n', calls') \<Rightarrow>
                 Inr (w' # ws', quit', n', glfwWindowShouldClose (handle w) # calls @ calls')))"

subsection \<open>One frame and the main loop\<close>

definition dt_target :: real where
  "dt_target = 1 / TARGET_FPS"

text \<open>The pacing at the end of a frame, from the two clock readings.\<close>

definition pacing :: "real \<Rightarrow> real \<Rightarrow> call list" where
  "pacing frameStart frameEnd =
     (let elapsed = frameEnd - frameStart;
          sleepSec = dt_target - elapsed
      in if sleepSec > 0 then [sleep_for sleepSec] else [])"

text \<open>
  The body of \<^verbatim>\<open>while (!g_quit)\<close>: the events of the frame run the key callback, the
  windows are stepped, the frame is paced.
\<close>

definition frame :: "world \<Rightarrow> state \<Rightarrow> error + state" where
  "frame e s =
     (let f = frame_no s;
          frameStart = clock_now e (2 * f);
          quit = foldl key_callback (g_quit s) (key_events e f)
      in case window_pass e f (wins s) quit (rng s) of
           Inl err \<Rightarrow> Inl err
         | Inr (ws', quit', n', calls) \<Rightarrow>
             let frameEnd = clock_now e (2 * f + 1)
             in Inr (s\<lparr>wins := ws', g_quit := quit', rng := n', frame_no := f + 1,
                       trace := trace s @ glfwPollEvents # calls @ pacing frameStart frameEnd\<rparr>))"

text \<open>
  The loop \<^verbatim>\<open>while (!g_quit)\<close> on at most \<open>fuel\<close> frames. The loop has left exactly when
  the state returned has \<open>g_quit\<close> set.
\<close>

fun main_loop :: "nat \<Rightarrow> world \<Rightarrow> state \<Rightarrow> error + state" where
  "main_loop 0 e s = Inr s"
| "main_loop (Suc fuel) e s =
     (if g_quit s then Inr s
      else case frame e s of Inl err \<Rightarrow> Inl err | Inr s' \<Rightarrow> main_loop fuel e s')"

subsection \<open>Start and shutdown\<close>

text \<open>The calls of \<open>main\<close> up to and including \<open>glfwInit\<close>.\<close>

definition init_calls :: "call list" where
  "init_calls =
     [glfwWindowHint GLFW_COCOA_RETINA_FRAMEBUFFER False,
      glfwWindowHint GLFW_VISIBLE False,
      glfwInit]"

text \<open>The state in which the main loop starts, after a successful \<open>glfwInit\<close>.\<close>

definition startup :: "world \<Rightarrow> state" where
  "startup e =
     create_windows e 0
       \<lparr>wins = [], g_quit = False, rng = 0, frame_no = 0,
        trace = init_calls @
          [glfwWindowHint GLFW_DECORATED True,
           glfwWindowHint GLFW_RESIZABLE True,
           glfwWindowHint GLFW_VISIBLE True,
           glfwWindowHint GLFW_DOUBLEBUFFER True,
           glfwGetPrimaryMonitor,
           glfwGetMonitorWorkarea]\<rparr>"

text \<open>The cleanup loop and \<open>glfwTerminate\<close>.\<close>

definition cleanup :: "Win list \<Rightarrow> call list" where
  "cleanup ws =
     concat (map (\<lambda>w. if handle w \<noteq> 0 then [glfwDestroyWindow (handle w)] else []) ws)
     @ [glfwTerminate]"

definition main :: "nat \<Rightarrow> world \<Rightarrow> outcome" where
  "main fuel e =
     (if \<not> init_ok e then
        Exit 1 (init_calls @ [fprintf_stderr (''Failed to init GLFW'' @ [newline])])
      else
        case main_loop fuel e (startup e) of
          Inl err \<Rightarrow> Undefined
        | Inr s \<Rightarrow> if g_quit s then Exit 0 (trace s @ cleanup (wins s)) else Running)"

section \<open>Properties\<close>

subsection \<open>Predicates of the claims\<close>







text \<open>What a trace holds: the calls of one kind, or their arguments.\<close>

fun is_resize :: "call \<Rightarrow> bool" where
  "is_resize (glfwSetWindowSize win w h) = True"
| "is_resize c = False"

fun is_reposition :: "call \<Rightarrow> bool" where
  "is_reposition (glfwSetWindowPos win x y) = True"
| "is_reposition c = False"

fun is_create :: "call \<Rightarrow> bool" where
  "is_create (glfwCreateWindow w h title win) = True"
| "is_create c = False"

fun sleep_of :: "call \<Rightarrow> real list" where
  "sleep_of (sleep_for d) = [d]"
| "sleep_of c = []"

fun clear_color_of :: "call \<Rightarrow> (real \<times> real \<times> real) list" where
  "clear_color_of (glClearColor r g b a) = [(r, g, b)]"
| "clear_color_of c = []"

fun created_of :: "call \<Rightarrow> nat list" where
  "created_of (glfwCreateWindow w h title win) = (if win \<noteq> 0 then [win] else [])"
| "created_of c = []"

fun destroyed_of :: "call \<Rightarrow> nat list" where
  "destroyed_of (glfwDestroyWindow win) = [win]"
| "destroyed_of c = []"

text \<open>The durations slept, the colours cleared to, the handles created and destroyed.\<close>

definition sleeps :: "call list \<Rightarrow> real list" where
  "sleeps tr = concat (map sleep_of tr)"

definition clear_colors :: "call list \<Rightarrow> (real \<times> real \<times> real) list" where
  "clear_colors tr = concat (map clear_color_of tr)"

definition created_handles :: "call list \<Rightarrow> nat list" where
  "created_handles tr = concat (map created_of tr)"

definition destroyed_handles :: "call list \<Rightarrow> nat list" where
  "destroyed_handles tr = concat (map destroyed_of tr)"

definition color :: "Win \<Rightarrow> real \<times> real \<times> real" where
  "color w = (win_r w, win_g w, win_b w)"

text \<open>A key event that is a press of one of the two quit keys.\<close>

definition is_quit_press :: "key_event \<Rightarrow> bool" where
  "is_quit_press ev \<longleftrightarrow>
     ev_action ev = GLFW_PRESS \<and> (ev_key ev = GLFW_KEY_ESCAPE \<or> ev_key ev = GLFW_KEY_Q)"

text \<open>The calls a state has added to the trace of an earlier state.\<close>

definition new_calls :: "state \<Rightarrow> state \<Rightarrow> call list" where
  "new_calls s s' = drop (length (trace s)) (trace s')"

text \<open>
  The pool and the trace agree: the handles of the records are the handles created, in
  order, none is null and none has been destroyed.
\<close>

definition pool_recorded :: "state \<Rightarrow> bool" where
  "pool_recorded s \<longleftrightarrow>
     created_handles (trace s) = map handle (wins s) \<and>
     destroyed_handles (trace s) = [] \<and>
     list_all (\<lambda>w. handle w \<noteq> 0) (wins s)"

subsection \<open>Example worlds\<close>

text \<open>
  A world in which three windows are created and the fourth creation fails, nothing is
  closed, and the key Q is pressed in the second frame; and variants of it.
\<close>

definition quit_key_press :: key_event where
  "quit_key_press =
     \<lparr>ev_window = 11, ev_key = GLFW_KEY_Q, ev_scancode = 0, ev_action = GLFW_PRESS, ev_mods = 0\<rparr>"

definition demo_world :: world where
  "demo_world =
     \<lparr>init_ok = True, workarea = (0, 0, 1000, 800),
      sizeRand = (\<lambda>n. if even n then 100 else 150),
      uni01 = (\<lambda>n. if n = 4 then 1 / 4 else if n = 12 then 3 / 4 else 1 / 2),
      jitterPos = (\<lambda>n. 3),
      jitterSize = (\<lambda>n. - 5),
      created_handle = (\<lambda>i. if i = 0 then 11 else if i = 1 then 12 else if i = 2 then 13 else 0),
      key_events = (\<lambda>f. if f = 1 then [quit_key_press] else []),
      should_close = (\<lambda>f h. False),
      clock_now = (\<lambda>k. real k / 100)\<rparr>"



definition calm_world :: world where
  "calm_world = demo_world\<lparr>jitterPos := (\<lambda>n. 0)\<rparr>"

definition closing_world :: world where
  "closing_world = demo_world\<lparr>should_close := (\<lambda>f h. h = 12)\<rparr>"

definition no_glfw_world :: world where
  "no_glfw_world = demo_world\<lparr>init_ok := False\<rparr>"

definition slow_world :: world where
  "slow_world = demo_world\<lparr>clock_now := (\<lambda>k. real k)\<rparr>"

section \<open>Proofs\<close>

subsection \<open>Clamping and the bounds of a record\<close>


lemma clamp_defined:
  "lo \<le> hi \<Longrightarrow> \<exists>v'. clamp v lo hi = Inr v' \<and> lo \<le> v' \<and> v' \<le> hi"
  by (auto simp: clamp_def)


lemma step_win_defined:
  assumes wa: "workarea e = (workX, workY, workW, workH)"
    and "MAX_SIZE \<le> workW" "MAX_SIZE \<le> workH"
  shows "\<exists>w' calls. step_win e n w = Inr (w', calls)"
proof -
  obtain newW where nw: "clamp (win_w w + jitterSize e n) MIN_SIZE MAX_SIZE = Inr newW"
    "newW \<le> MAX_SIZE"
    using clamp_defined [of MIN_SIZE MAX_SIZE] by (auto simp: MIN_SIZE_def MAX_SIZE_def)
  obtain newH where nh: "clamp (win_h w + jitterSize e (n + 1)) MIN_SIZE MAX_SIZE = Inr newH"
    "newH \<le> MAX_SIZE"
    using clamp_defined [of MIN_SIZE MAX_SIZE] by (auto simp: MIN_SIZE_def MAX_SIZE_def)
  have "workX \<le> workX + workW - newW" using nw assms by simp
  then obtain newX where nx: "clamp (win_x w + jitterPos e (n + 2)) workX (workX + workW - newW) = Inr newX"
    using clamp_defined by blast
  have "workY \<le> workY + workH - newH" using nh assms by simp
  then obtain newY where ny: "clamp (win_y w + jitterPos e (n + 3)) workY (workY + workH - newH) = Inr newY"
    using clamp_defined by blast
  show ?thesis using wa nw nh nx ny by (simp add: step_win_def Let_def)
qed


lemma window_pass_defined:
  assumes wa: "workarea e = (workX, workY, workW, workH)"
    and "MAX_SIZE \<le> workW" "MAX_SIZE \<le> workH"
  shows "\<exists>r. window_pass e f ws quit n = Inr r"
proof (induction ws arbitrary: n)
  case Nil
  then show ?case by simp
next
  case (Cons w ws)
  from step_win_defined [OF assms] obtain w' calls where "step_win e n w = Inr (w', calls)"
    by blast
  moreover from Cons obtain r where "window_pass e f ws quit (n + 4) = Inr r" by blast
  ultimately show ?case by (cases r) auto
qed


lemma frame_defined:
  assumes wa: "workarea e = (workX, workY, workW, workH)"
    and "MAX_SIZE \<le> workW" "MAX_SIZE \<le> workH"
  shows "\<exists>s'. frame e s = Inr s'"
proof -
  from window_pass_defined [OF assms] obtain r where
    "window_pass e (frame_no s) (wins s) (foldl key_callback (g_quit s) (key_events e (frame_no s))) (rng s) = Inr r"
    by blast
  then show ?thesis by (cases r) (auto simp: frame_def Let_def)
qed


lemma main_loop_defined:
  assumes wa: "workarea e = (workX, workY, workW, workH)"
    and "MAX_SIZE \<le> workW" "MAX_SIZE \<le> workH"
  shows "\<exists>s'. main_loop fuel e s = Inr s'"
proof (induction fuel arbitrary: s)
  case 0
  then show ?case by simp
next
  case (Suc fuel)
  from frame_defined [OF assms] obtain s1 where "frame e s = Inr s1" by blast
  with Suc [of s1] show ?case by auto
qed


lemma create_windows_preserves:
  assumes step: "\<And>i s c s'. P s \<Longrightarrow> create_window e i s = (c, s') \<Longrightarrow> P s'"
  shows "P s \<Longrightarrow> P (create_windows e i s)"
proof (induction "WINDOW_COUNT - i" arbitrary: i s)
  case 0
  then show ?case by (simp add: create_windows.simps)
next
  case (Suc k)
  then have lt: "i < WINDOW_COUNT" by simp
  obtain c s' where cw: "create_window e i s = (c, s')" by (cases "create_window e i s")
  have P': "P s'" using step [OF Suc.prems cw] .
  show ?case
  proof (cases c)
    case True
    have "k = WINDOW_COUNT - (i + 1)" using Suc.hyps(2) by simp
    from Suc.hyps(1) [OF this P'] True lt cw show ?thesis
      by (simp add: create_windows.simps [of e i s])
  next
    case False
    with lt cw P' show ?thesis
      by (simp add: create_windows.simps [of e i s])
  qed
qed








lemma startup_demo_wins:
  "wins (startup demo_world) =
     [\<lparr>handle = 11, win_r = 1 / 4, win_g = 1 / 2, win_b = 1 / 2,
       win_x = 450, win_y = 325, win_w = 100, win_h = 150\<rparr>,
      \<lparr>handle = 12, win_r = 1 / 2, win_g = 3 / 4, win_b = 1 / 2,
       win_x = 425, win_y = 350, win_w = 150, win_h = 100\<rparr>,
      \<lparr>handle = 13, win_r = 1 / 2, win_g = 1 / 2, win_b = 1 / 2,
       win_x = 450, win_y = 325, win_w = 100, win_h = 150\<rparr>]"
  by (simp add: startup_def demo_world_def create_windows.simps create_window_def
      WINDOW_COUNT_def to_int_def Let_def)





subsection \<open>The calls of a step, a pass and a frame\<close>

lemma step_win_calls:
  assumes "step_win e n w = Inr (w', calls)"
  shows "handle w' = handle w" "color w' = color w"
    "sleeps calls = []" "clear_colors calls = [color w]"
    "created_handles calls = []" "destroyed_handles calls = []"
    "filter is_create calls = []"
proof -
  obtain workX workY workW workH where wa: "workarea e = (workX, workY, workW, workH)"
    by (cases "workarea e") auto
  from assms wa show "handle w' = handle w" "color w' = color w"
    "sleeps calls = []" "clear_colors calls = [color w]"
    "created_handles calls = []" "destroyed_handles calls = []"
    "filter is_create calls = []"
    by (auto simp: step_win_def Let_def color_def sleeps_def clear_colors_def
        created_handles_def destroyed_handles_def split: sum.splits)
qed

lemma step_win_updates:
  assumes "step_win e n w = Inr (w', calls)"
  shows "filter is_resize calls =
           (if win_w w' \<noteq> win_w w \<or> win_h w' \<noteq> win_h w
            then [glfwSetWindowSize (handle w) (win_w w') (win_h w')] else [])"
    and "filter is_reposition calls =
           (if win_x w' \<noteq> win_x w \<or> win_y w' \<noteq> win_y w
            then [glfwSetWindowPos (handle w) (win_x w') (win_y w')] else [])"
proof -
  obtain workX workY workW workH where wa: "workarea e = (workX, workY, workW, workH)"
    by (cases "workarea e") auto
  from assms wa show "filter is_resize calls =
           (if win_w w' \<noteq> win_w w \<or> win_h w' \<noteq> win_h w
            then [glfwSetWindowSize (handle w) (win_w w') (win_h w')] else [])"
    by (auto simp: step_win_def Let_def split: sum.splits)
  from assms wa show "filter is_reposition calls =
           (if win_x w' \<noteq> win_x w \<or> win_y w' \<noteq> win_y w
            then [glfwSetWindowPos (handle w) (win_x w') (win_y w')] else [])"
    by (auto simp: step_win_def Let_def split: sum.splits)
qed

lemma trace_append [simp]:
  "sleeps (a @ b) = sleeps a @ sleeps b"
  "clear_colors (a @ b) = clear_colors a @ clear_colors b"
  "created_handles (a @ b) = created_handles a @ created_handles b"
  "destroyed_handles (a @ b) = destroyed_handles a @ destroyed_handles b"
  by (simp_all add: sleeps_def clear_colors_def created_handles_def destroyed_handles_def)

lemma trace_Cons [simp]:
  "sleeps (c # b) = sleep_of c @ sleeps b"
  "clear_colors (c # b) = clear_color_of c @ clear_colors b"
  "created_handles (c # b) = created_of c @ created_handles b"
  "destroyed_handles (c # b) = destroyed_of c @ destroyed_handles b"
  by (simp_all add: sleeps_def clear_colors_def created_handles_def destroyed_handles_def)

lemma trace_Nil [simp]:
  "sleeps [] = []" "clear_colors [] = []" "created_handles [] = []" "destroyed_handles [] = []"
  by (simp_all add: sleeps_def clear_colors_def created_handles_def destroyed_handles_def)

lemma window_pass_calls:
  "window_pass e f ws quit n = Inr (ws', quit', n', calls) \<Longrightarrow>
     map handle ws' = map handle ws \<and> map color ws' = map color ws \<and>
     sleeps calls = [] \<and> created_handles calls = [] \<and> destroyed_handles calls = [] \<and>
     filter is_create calls = [] \<and>
     clear_colors calls = map color (takeWhile (\<lambda>w. \<not> should_close e f (handle w)) ws) \<and>
     (quit' \<longleftrightarrow> quit \<or> (\<exists>w \<in> set ws. should_close e f (handle w)))"
proof (induction ws arbitrary: ws' quit' n' calls n)
  case Nil
  then show ?case by simp
next
  case (Cons w ws)
  show ?case
  proof (cases "should_close e f (handle w)")
    case True
    with Cons.prems show ?thesis by auto
  next
    case False
    with Cons.prems obtain w1 c1 ws1 q1 n1 calls1 where
      st: "step_win e n w = Inr (w1, c1)" and
      rest: "window_pass e f ws quit (n + 4) = Inr (ws1, q1, n1, calls1)" and
      res: "ws' = w1 # ws1" "quit' = q1" "calls = glfwWindowShouldClose (handle w) # c1 @ calls1"
      by (auto split: sum.splits)
    from Cons.IH [OF rest] step_win_calls [OF st] res False show ?thesis
      by simp
  qed
qed


lemma frame_Inr:
  assumes "frame e s = Inr s'"
  obtains ws' quit' n' calls where
    "window_pass e (frame_no s) (wins s)
       (foldl key_callback (g_quit s) (key_events e (frame_no s))) (rng s)
     = Inr (ws', quit', n', calls)"
    and "s' = s\<lparr>wins := ws', g_quit := quit', rng := n', frame_no := frame_no s + 1,
           trace := trace s @ glfwPollEvents # calls @
             pacing (clock_now e (2 * frame_no s)) (clock_now e (2 * frame_no s + 1))\<rparr>"
  using assms by (auto simp: frame_def Let_def split: sum.splits)

lemma frame_new_calls:
  assumes "frame e s = Inr s'"
  obtains ws' quit' n' calls where
    "window_pass e (frame_no s) (wins s)
       (foldl key_callback (g_quit s) (key_events e (frame_no s))) (rng s)
     = Inr (ws', quit', n', calls)"
    and "wins s' = ws'" and "g_quit s' = quit'" and "rng s' = n'"
    and "new_calls s s' = glfwPollEvents # calls @
             pacing (clock_now e (2 * frame_no s)) (clock_now e (2 * frame_no s + 1))"
  using assms by (auto elim!: frame_Inr simp: new_calls_def)

lemma sleeps_pacing:
  "sleeps (pacing frameStart frameEnd) =
     (if frameEnd - frameStart < 1 / TARGET_FPS
      then [1 / TARGET_FPS - (frameEnd - frameStart)] else [])"
  by (simp add: pacing_def dt_target_def Let_def)

lemma pacing_quiet:
  "clear_colors (pacing a b) = []" "created_handles (pacing a b) = []"
  "destroyed_handles (pacing a b) = []" "filter is_create (pacing a b) = []"
  by (simp_all add: pacing_def Let_def)

lemma frame_colors:
  assumes "frame e s = Inr s'"
  shows "map color (wins s') = map color (wins s)"
    and "map handle (wins s') = map handle (wins s)"
    and "clear_colors (new_calls s s') =
           map color (takeWhile (\<lambda>w. \<not> should_close e (frame_no s) (handle w)) (wins s))"
    and "created_handles (new_calls s s') = []"
    and "destroyed_handles (new_calls s s') = []"
    and "filter is_create (new_calls s s') = []"
proof -
  from assms obtain ws' quit' n' calls where
    wp: "window_pass e (frame_no s) (wins s)
       (foldl key_callback (g_quit s) (key_events e (frame_no s))) (rng s)
     = Inr (ws', quit', n', calls)"
    and w: "wins s' = ws'"
    and nc: "new_calls s s' = glfwPollEvents # calls @
             pacing (clock_now e (2 * frame_no s)) (clock_now e (2 * frame_no s + 1))"
    by (rule frame_new_calls)
  note wpc = window_pass_calls [OF wp]
  from wpc w show "map color (wins s') = map color (wins s)" by simp
  from wpc w show "map handle (wins s') = map handle (wins s)" by simp
  from wpc nc show "clear_colors (new_calls s s') =
           map color (takeWhile (\<lambda>w. \<not> should_close e (frame_no s) (handle w)) (wins s))"
    by (simp add: pacing_quiet)
  from wpc nc show "created_handles (new_calls s s') = []" by (simp add: pacing_quiet)
  from wpc nc show "destroyed_handles (new_calls s s') = []" by (simp add: pacing_quiet)
  from wpc nc show "filter is_create (new_calls s s') = []" by (simp add: pacing_quiet)
qed

lemma main_loop_colors:
  "main_loop fuel e s = Inr s' \<Longrightarrow>
     map color (wins s') = map color (wins s) \<and> map handle (wins s') = map handle (wins s)"
proof (induction fuel arbitrary: s)
  case 0
  then show ?case by simp
next
  case (Suc fuel)
  show ?case
  proof (cases "g_quit s")
    case True
    with Suc.prems show ?thesis by simp
  next
    case False
    with Suc.prems obtain s1 where f: "frame e s = Inr s1" and r: "main_loop fuel e s1 = Inr s'"
      by (auto split: sum.splits)
    from Suc.IH [OF r] frame_colors(1,2) [OF f] show ?thesis by simp
  qed
qed

subsection \<open>Quitting, the pool and the shutdown\<close>

lemma foldl_key_callback:
  "foldl key_callback quit evs \<longleftrightarrow> quit \<or> list_ex is_quit_press evs"
  by (induction evs arbitrary: quit) (auto simp: key_callback_def is_quit_press_def)

lemma window_pass_append_close:
  assumes "\<forall>w \<in> set pre. \<not> should_close e f (handle w)"
    and "should_close e f (handle c)"
  shows "window_pass e f (pre @ c # post) quit n =
           (case window_pass e f pre quit n of
              Inl err \<Rightarrow> Inl err
            | Inr (pre', quit', n', calls) \<Rightarrow>
                Inr (pre' @ c # post, True, n', calls @ [glfwWindowShouldClose (handle c)]))"
  using assms
proof (induction pre arbitrary: n)
  case Nil
  then show ?case by simp
next
  case (Cons w pre)
  then show ?case by (auto split: sum.splits)
qed

lemma window_pass_draws:
  "window_pass e f ws quit n = Inr (ws', quit', n', calls) \<Longrightarrow>
   \<forall>w \<in> set ws. \<not> should_close e f (handle w) \<Longrightarrow>
   n' = n + 4 * length ws \<and> length ws' = length ws"
proof (induction ws arbitrary: ws' quit' n' calls n)
  case Nil
  then show ?case by simp
next
  case (Cons w ws)
  from Cons.prems obtain w1 c1 ws1 q1 n1 calls1 where
    rest: "window_pass e f ws quit (n + 4) = Inr (ws1, q1, n1, calls1)" and
    res: "ws' = w1 # ws1" "n' = n1"
    by (auto split: sum.splits)
  from Cons.IH [OF rest] Cons.prems(2) res show ?case by simp
qed

lemma main_loop_quit:
  "g_quit s \<Longrightarrow> main_loop fuel e s = Inr s"
  by (cases fuel) simp_all

lemma frame_sets_quit:
  assumes "frame e s = Inr s'"
  shows "g_quit s' \<longleftrightarrow>
           g_quit s \<or> list_ex is_quit_press (key_events e (frame_no s)) \<or>
           list_ex (\<lambda>w. should_close e (frame_no s) (handle w)) (wins s)"
proof -
  from assms obtain ws' quit' n' calls where
    wp: "window_pass e (frame_no s) (wins s)
       (foldl key_callback (g_quit s) (key_events e (frame_no s))) (rng s)
      = Inr (ws', quit', n', calls)"
    and q: "g_quit s' = quit'"
    by (rule frame_new_calls)
  from window_pass_calls [OF wp] q show ?thesis
    by (simp add: foldl_key_callback list_ex_iff)
qed


lemma create_window_cases:
  assumes "create_window e i s = (c, s')"
  obtains (failed) "created_handle e i = 0" "\<not> c" "wins s' = wins s"
      "\<exists>w h. trace s' = trace s @
         [glfwCreateWindow w h (''Window '' @ to_string (i + 1)) 0,
          fprintf_stderr (''Failed to create window '' @ to_string (i + 1) @ [newline])]"
      "g_quit s' = g_quit s" "frame_no s' = frame_no s"
    | (created) win x y w h where "created_handle e i \<noteq> 0" "c"
      "wins s' = wins s @ [win]" "handle win = created_handle e i"
      "trace s' = trace s @
         [glfwCreateWindow w h (''Window '' @ to_string (i + 1)) (created_handle e i),
          glfwSetWindowPos (created_handle e i) x y, glfwSetKeyCallback (created_handle e i),
          glfwMakeContextCurrent (created_handle e i), glfwSwapInterval 0]"
      "g_quit s' = g_quit s" "frame_no s' = frame_no s"
proof -
  obtain workX workY workW workH where wa: "workarea e = (workX, workY, workW, workH)"
    by (cases "workarea e") auto
  show ?thesis
  proof (cases "created_handle e i = 0")
    case True
    with assms wa show ?thesis
      by (intro failed) (auto simp: create_window_def Let_def)
  next
    case False
    with assms wa show ?thesis
      by (intro created) (auto simp: create_window_def Let_def)
  qed
qed

lemma create_window_recorded:
  assumes "pool_recorded s" "create_window e i s = (c, s')"
  shows "pool_recorded s'"
  using assms(2)
proof (cases rule: create_window_cases)
  case failed
  then show ?thesis using assms(1) by (auto simp: pool_recorded_def)
next
  case (created win x y w h)
  then show ?thesis using assms(1) by (auto simp: pool_recorded_def)
qed

lemma create_window_flags:
  assumes "\<not> g_quit s \<and> frame_no s = 0" "create_window e i s = (c, s')"
  shows "\<not> g_quit s' \<and> frame_no s' = 0"
  using assms(2) by (cases rule: create_window_cases) (use assms(1) in auto)

lemma startup_recorded: "pool_recorded (startup e)"
  unfolding startup_def
proof (rule create_windows_preserves [where P = pool_recorded])
  show "pool_recorded s'" if "pool_recorded s" "create_window e i s = (c, s')" for i s c s'
    using that by (rule create_window_recorded)
qed (simp add: pool_recorded_def init_calls_def)

lemma startup_flags: "\<not> g_quit (startup e) \<and> frame_no (startup e) = 0"
  unfolding startup_def
proof (rule create_windows_preserves [where P = "\<lambda>s. \<not> g_quit s \<and> frame_no s = 0"])
  show "\<not> g_quit s' \<and> frame_no s' = 0"
    if "\<not> g_quit s \<and> frame_no s = 0" "create_window e i s = (c, s')" for i s c s'
    using that by (rule create_window_flags)
qed simp

lemma frame_trace:
  assumes "frame e s = Inr s'"
  shows "trace s' = trace s @ new_calls s s'"
  using assms by (auto elim!: frame_Inr simp: new_calls_def)

lemma frame_recorded:
  assumes "frame e s = Inr s'" "pool_recorded s"
  shows "pool_recorded s'"
proof -
  from frame_colors(2) [OF assms(1)] have "map handle (wins s') = map handle (wins s)" .
  moreover from this have "list_all (\<lambda>w. handle w \<noteq> 0) (wins s') =
      list_all (\<lambda>w. handle w \<noteq> 0) (wins s)"
    by (metis (mono_tags, lifting) list_all_iff list.set_map image_iff imageI)
  ultimately show ?thesis
    using assms(2) frame_trace [OF assms(1)] frame_colors(4,5) [OF assms(1)]
    by (simp add: pool_recorded_def)
qed

lemma main_loop_recorded:
  "main_loop fuel e s = Inr s' \<Longrightarrow> pool_recorded s \<Longrightarrow> pool_recorded s'"
proof (induction fuel arbitrary: s)
  case 0
  then show ?case by simp
next
  case (Suc fuel)
  then show ?case
    by (auto split: if_splits sum.splits dest: frame_recorded)
qed

lemma cleanup_handles:
  "list_all (\<lambda>w. handle w \<noteq> 0) ws \<Longrightarrow> destroyed_handles (cleanup ws) = map handle ws"
  "created_handles (cleanup ws) = []"
  by (induction ws) (auto simp: cleanup_def)

lemma main_Exit:
  assumes "main fuel e = Exit code tr" "init_ok e"
  obtains s where "main_loop fuel e (startup e) = Inr s" "g_quit s" "code = 0"
    "tr = trace s @ cleanup (wins s)"
  using assms by (auto simp: main_def split: sum.splits if_splits)

lemma main_destroys_created:
  assumes "main fuel e = Exit code tr" "init_ok e"
  shows "destroyed_handles tr = created_handles tr"
proof -
  from assms obtain s where run: "main_loop fuel e (startup e) = Inr s"
    and tr: "tr = trace s @ cleanup (wins s)"
    by (rule main_Exit)
  from main_loop_recorded [OF run startup_recorded] have "pool_recorded s" .
  with tr show ?thesis by (simp add: pool_recorded_def cleanup_handles)
qed

lemma first_closing:
  assumes "should_close e f (handle c)"
  obtains c0 rest where
    "pre @ c # post =
       takeWhile (\<lambda>w. \<not> should_close e f (handle w)) (pre @ c # post) @ c0 # rest"
    "should_close e f (handle c0)"
    "takeWhile (\<lambda>w. \<not> should_close e f (handle w)) (pre @ c # post) =
       takeWhile (\<lambda>w. \<not> should_close e f (handle w)) pre"
proof -
  let ?P = "\<lambda>w. \<not> should_close e f (handle w)"
  let ?ws = "pre @ c # post"
  have c: "\<not> ?P c" using assms by simp
  have tw: "takeWhile ?P ?ws = takeWhile ?P pre"
  proof (cases "\<forall>x \<in> set pre. ?P x")
    case True
    then have a: "takeWhile ?P pre = pre" by (simp add: takeWhile_eq_all_conv)
    have b: "takeWhile ?P ?ws = pre" using True c by (simp add: takeWhile_append)
    show ?thesis by (simp only: a b)
  next
    case False
    then show ?thesis by (auto simp: takeWhile_append)
  qed
  have "c \<in> set ?ws" by simp
  with c have "dropWhile ?P ?ws \<noteq> []" by (metis dropWhile_eq_Nil_conv)
  then obtain c0 rest where dw: "dropWhile ?P ?ws = c0 # rest"
    by (cases "dropWhile ?P ?ws") auto
  then have "\<not> ?P c0" by (metis hd_dropWhile list.sel(1) list.distinct(1))
  then have close: "should_close e f (handle c0)" by simp
  have split: "?ws = takeWhile ?P ?ws @ c0 # rest"
    using dw takeWhile_dropWhile_id [of ?P ?ws] by simp
  show ?thesis by (rule that [OF split close tw])
qed

subsection \<open>A creation that fails\<close>



subsection \<open>The example worlds, evaluated\<close>

lemma frame_frame_no:
  "frame e s = Inr s' \<Longrightarrow> frame_no s' = frame_no s + 1"
  by (auto elim!: frame_Inr)

lemma demo_workarea:
  "workarea demo_world = (0, 0, 1000, 800)" "MAX_SIZE \<le> 1000" "MAX_SIZE \<le> 800"
  by (simp_all add: demo_world_def MAX_SIZE_def)

lemma closing_workarea:
  "workarea closing_world = (0, 0, 1000, 800)"
  by (simp add: closing_world_def demo_world_def)

lemma startup_closing:
  "wins (startup closing_world) =
     [\<lparr>handle = 11, win_r = 1 / 4, win_g = 1 / 2, win_b = 1 / 2,
       win_x = 450, win_y = 325, win_w = 100, win_h = 150\<rparr>,
      \<lparr>handle = 12, win_r = 1 / 2, win_g = 3 / 4, win_b = 1 / 2,
       win_x = 425, win_y = 350, win_w = 150, win_h = 100\<rparr>,
      \<lparr>handle = 13, win_r = 1 / 2, win_g = 1 / 2, win_b = 1 / 2,
       win_x = 450, win_y = 325, win_w = 100, win_h = 150\<rparr>]"
  "rng (startup closing_world) = 25"
  by (simp_all add: startup_def closing_world_def demo_world_def create_windows.simps
      create_window_def WINDOW_COUNT_def to_int_def Let_def)

lemma demo_run:
  obtains s1 s2 where "frame demo_world (startup demo_world) = Inr s1" "\<not> g_quit s1"
    "frame_no s1 = 1" "frame demo_world s1 = Inr s2" "g_quit s2"
    "main_loop (Suc (Suc fuel)) demo_world (startup demo_world) = Inr s2"
proof -
  note st = startup_flags [of demo_world]
  obtain s1 where f1: "frame demo_world (startup demo_world) = Inr s1"
    using frame_defined [OF demo_workarea] by blast
  have quiet: "key_events demo_world 0 = []" "\<And>f h. \<not> should_close demo_world f h"
    by (simp_all add: demo_world_def)
  have q1: "\<not> g_quit s1"
    using frame_sets_quit [OF f1] st by (simp add: quiet list_ex_iff)
  have n1: "frame_no s1 = 1" using frame_frame_no [OF f1] st by simp
  obtain s2 where f2: "frame demo_world s1 = Inr s2"
    using frame_defined [OF demo_workarea] by blast
  have q2: "g_quit s2"
    using frame_sets_quit [OF f2] n1
    by (simp add: demo_world_def is_quit_press_def quit_key_press_def)
  have "main_loop (Suc (Suc fuel)) demo_world (startup demo_world) = Inr s2"
    using st f1 q1 f2 q2 by (simp add: main_loop_quit)
  with f1 q1 n1 f2 q2 show ?thesis by (rule that)
qed

lemma slow_workarea:
  "workarea slow_world = (0, 0, 1000, 800)"
  by (simp add: slow_world_def demo_world_def)

lemma demo_main:
  obtains s2 where "main_loop 2 demo_world (startup demo_world) = Inr s2" "g_quit s2"
    "main 2 demo_world = Exit 0 (trace s2 @ cleanup (wins s2))"
    "created_handles (trace s2 @ cleanup (wins s2)) = [11, 12, 13]"
proof -
  obtain s2 where q: "g_quit s2"
    and m2: "main_loop (Suc (Suc 0)) demo_world (startup demo_world) = Inr s2"
    by (rule demo_run [of 0])
  have m: "main_loop 2 demo_world (startup demo_world) = Inr s2"
    using m2 by (simp add: numeral_2_eq_2)
  have ex: "main 2 demo_world = Exit 0 (trace s2 @ cleanup (wins s2))"
    using m q by (simp add: main_def demo_world_def)
  from main_loop_recorded [OF m startup_recorded]
  have "created_handles (trace s2) = map handle (wins s2)" by (simp add: pool_recorded_def)
  also have "\<dots> = map handle (wins (startup demo_world))"
    using main_loop_colors [OF m] by simp
  also have "\<dots> = [11, 12, 13]" by (simp add: startup_demo_wins)
  finally have "created_handles (trace s2 @ cleanup (wins s2)) = [11, 12, 13]"
    by (simp add: cleanup_handles)
  with m q ex show ?thesis by (rule that)
qed

section \<open>The claims\<close>

subsection \<open>C1: the bounds invariant\<close>




subsection \<open>C2: quit propagation\<close>

text \<open>
  C2: when a frame delivers a press of a quit key, or one of its windows wants to close,
  the quit flag is set at the end of that frame and the main loop runs no frame after it
  (and none at all once the flag is set). When \<open>main\<close> returns after the main loop, the
  handles destroyed are the handles of the windows created, each once and in order.
\<close>

theorem quit_propagation:
  assumes "frame e s = Inr s'"
    and "list_ex is_quit_press (key_events e (frame_no s)) \<or>
         list_ex (\<lambda>w. should_close e (frame_no s) (handle w)) (wins s)"
  shows "g_quit s' \<and> main_loop fuel e s' = Inr s' \<and>
         (if g_quit s then main_loop fuel e s = Inr s else main_loop (Suc fuel) e s = Inr s') \<and>
         (\<forall>code tr. init_ok e \<and> main fuel e = Exit code tr \<longrightarrow>
            destroyed_handles tr = created_handles tr)"
proof -
  from frame_sets_quit [OF assms(1)] assms(2) have quit: "g_quit s'" by blast
  then have stop: "main_loop fuel e s' = Inr s'" by (rule main_loop_quit)
  have "if g_quit s then main_loop fuel e s = Inr s else main_loop (Suc fuel) e s = Inr s'"
    using assms(1) stop by (simp add: main_loop_quit)
  with quit stop main_destroys_created show ?thesis by blast
qed


text \<open>
  The example world: the key Q is pressed in the second frame, the loop leaves after it
  on any fuel from 2, and the three windows created are the three destroyed.
\<close>

theorem quit_propagation_witness:
  "(\<exists>s1 s2. frame demo_world s1 = Inr s2 \<and>
      list_ex is_quit_press (key_events demo_world (frame_no s1)) \<and>
      \<not> g_quit s1 \<and> g_quit s2 \<and>
      main_loop 2 demo_world (startup demo_world) = Inr s2 \<and>
      main_loop 7 demo_world (startup demo_world) = Inr s2 \<and>
      main_loop 6 demo_world s1 = Inr s2) \<and>
   (\<exists>tr. main 2 demo_world = Exit 0 tr \<and>
      created_handles tr = [11, 12, 13] \<and> destroyed_handles tr = [11, 12, 13])"
proof -
  obtain s1 s2 where r: "frame demo_world (startup demo_world) = Inr s1" "\<not> g_quit s1"
    "frame_no s1 = 1" "frame demo_world s1 = Inr s2"
    and m2: "main_loop (Suc (Suc 0)) demo_world (startup demo_world) = Inr s2"
    by (rule demo_run [of 0])
  have key: "list_ex is_quit_press (key_events demo_world (frame_no s1))"
    using r(3) by (simp add: demo_world_def is_quit_press_def quit_key_press_def)
  then have hyp: "list_ex is_quit_press (key_events demo_world (frame_no s1)) \<or>
         list_ex (\<lambda>w. should_close demo_world (frame_no s1) (handle w)) (wins s1)"
    by simp
  note qp = quit_propagation [OF r(4) hyp]
  from qp [of 5] r(2)
  have q: "g_quit s2" and one: "main_loop (Suc 5) demo_world s1 = Inr s2" by simp_all
  have m7: "main_loop 7 demo_world (startup demo_world) = Inr s2"
    using r(1) one startup_flags [of demo_world] by (simp add: numeral_eq_Suc)
  have loop: "\<exists>s1 s2. frame demo_world s1 = Inr s2 \<and>
      list_ex is_quit_press (key_events demo_world (frame_no s1)) \<and>
      \<not> g_quit s1 \<and> g_quit s2 \<and>
      main_loop 2 demo_world (startup demo_world) = Inr s2 \<and>
      main_loop 7 demo_world (startup demo_world) = Inr s2 \<and>
      main_loop 6 demo_world s1 = Inr s2"
    using r key q m2 m7 one by (auto simp: numeral_eq_Suc)
  obtain s :: state where ex: "main 2 demo_world = Exit 0 (trace s @ cleanup (wins s))"
    and cr: "created_handles (trace s @ cleanup (wins s)) = [11, 12, 13]"
    by (rule demo_main)
  have "init_ok demo_world" by (simp add: demo_world_def)
  with qp [of 2] ex
  have "destroyed_handles (trace s @ cleanup (wins s)) =
        created_handles (trace s @ cleanup (wins s))"
    by blast
  with ex cr have "\<exists>tr. main 2 demo_world = Exit 0 tr \<and>
      created_handles tr = [11, 12, 13] \<and> destroyed_handles tr = [11, 12, 13]"
    by simp
  with loop show ?thesis by (rule conjI)
qed

subsection \<open>C3: a window that wants to close ends the pass\<close>

text \<open>
  C3: when some window of the list wants to close in a frame, the frame ends with the quit
  flag set and the main loop runs no further frame. Only the windows before the first one
  that wants to close are stepped: they are stepped as in a pass over them alone, and the
  frame's calls are those of that pass, the close query of the first closing window and
  the pacing. From that window on the list is unchanged (so the window is not removed, and
  the given window and all after it are as before), no draw is made and nothing is rendered
  for them.
\<close>

theorem close_request_ends_pass:
  assumes "wins s = pre @ c # post"
    and "should_close e (frame_no s) (handle c)"
    and "frame e s = Inr s'"
  defines "stepped \<equiv> takeWhile (\<lambda>w. \<not> should_close e (frame_no s) (handle w)) pre"
  shows "g_quit s' \<and> main_loop fuel e s' = Inr s' \<and>
         length (wins s') = length (wins s) \<and>
         drop (length stepped) (wins s') = drop (length stepped) (wins s) \<and>
         drop (length pre) (wins s') = c # post \<and>
         rng s' = rng s + 4 * length stepped \<and>
         clear_colors (new_calls s s') = map color stepped \<and>
         (\<exists>stepped' quit' calls.
            window_pass e (frame_no s) stepped
              (foldl key_callback (g_quit s) (key_events e (frame_no s))) (rng s)
              = Inr (stepped', quit', rng s', calls) \<and>
            wins s' = stepped' @ drop (length stepped) (wins s) \<and>
            new_calls s s' =
              glfwPollEvents # calls @
              [glfwWindowShouldClose (handle (wins s ! length stepped))] @
              pacing (clock_now e (2 * frame_no s)) (clock_now e (2 * frame_no s + 1)))"
proof -
  let ?f = "frame_no s"
  let ?P = "\<lambda>w. \<not> should_close e ?f (handle w)"
  let ?q = "foldl key_callback (g_quit s) (key_events e ?f)"
  from assms(2) obtain c0 rest where
    split: "pre @ c # post = takeWhile ?P (pre @ c # post) @ c0 # rest"
    and c0: "should_close e ?f (handle c0)"
    and tw: "takeWhile ?P (pre @ c # post) = takeWhile ?P pre"
    by (rule first_closing)
  have ws: "wins s = stepped @ c0 # rest"
    using split tw assms(1) by (simp add: stepped_def)
  have quiet: "\<forall>w \<in> set stepped. \<not> should_close e ?f (handle w)"
    unfolding stepped_def by (auto dest: set_takeWhileD)
  have le: "length stepped \<le> length pre"
    unfolding stepped_def by (rule length_takeWhile_le)
  from assms(3) obtain ws' quit' n' calls where
    wp: "window_pass e ?f (wins s) ?q (rng s) = Inr (ws', quit', n', calls)"
    and w: "wins s' = ws'" and q: "g_quit s' = quit'" and n: "rng s' = n'"
    and nc: "new_calls s s' = glfwPollEvents # calls @
             pacing (clock_now e (2 * ?f)) (clock_now e (2 * ?f + 1))"
    by (rule frame_new_calls)
  from wp ws window_pass_append_close [OF quiet c0, of rest ?q "rng s"]
  obtain stepped' q0 calls0 where
    pre: "window_pass e ?f stepped ?q (rng s) = Inr (stepped', q0, n', calls0)"
    and res: "ws' = stepped' @ c0 # rest" "quit' = True"
      "calls = calls0 @ [glfwWindowShouldClose (handle c0)]"
    by (auto split: sum.splits)
  from window_pass_draws [OF pre quiet] have dr: "n' = rng s + 4 * length stepped"
    "length stepped' = length stepped" by simp_all
  from window_pass_calls [OF pre] quiet
  have cc: "clear_colors calls0 = map color stepped"
    by (simp add: takeWhile_eq_all_conv [THEN iffD2])
  have quit: "g_quit s'" using q res by simp
  have tail: "drop (length stepped) (wins s') = drop (length stepped) (wins s)"
    using w res dr ws by simp
  have "drop (length pre) (wins s') = drop (length pre) (wins s)"
  proof -
    have "drop (length pre) (wins s') =
        drop (length pre - length stepped) (drop (length stepped) (wins s'))"
      using le by simp
    also have "\<dots> = drop (length pre - length stepped) (drop (length stepped) (wins s))"
      by (simp only: tail)
    also have "\<dots> = drop (length pre) (wins s)" using le by simp
    finally show ?thesis .
  qed
  then have suffix: "drop (length pre) (wins s') = c # post" using assms(1) by simp
  have c0_at: "wins s ! length stepped = c0" using ws by simp
  have "\<exists>stepped' quit' calls.
            window_pass e ?f stepped ?q (rng s) = Inr (stepped', quit', rng s', calls) \<and>
            wins s' = stepped' @ drop (length stepped) (wins s) \<and>
            new_calls s s' =
              glfwPollEvents # calls @
              [glfwWindowShouldClose (handle (wins s ! length stepped))] @
              pacing (clock_now e (2 * ?f)) (clock_now e (2 * ?f + 1))"
    using pre res w n nc ws c0_at by auto
  moreover have "length (wins s') = length (wins s)" using w res dr ws by simp
  moreover have "rng s' = rng s + 4 * length stepped" using n dr by simp
  moreover have "clear_colors (new_calls s s') = map color stepped"
    using nc res cc by (simp add: pacing_quiet)
  moreover note quit main_loop_quit [OF quit, of fuel e] tail suffix
  ultimately show ?thesis by blast
qed

text \<open>
  The world in which the second window wants to close: the first frame steps the first
  window only, and leaves the second and the third as they were.
\<close>

theorem close_request_ends_pass_witness:
  "\<exists>s'. frame closing_world (startup closing_world) = Inr s' \<and> g_quit s' \<and>
     main_loop 3 closing_world s' = Inr s' \<and>
     drop 1 (wins s') =
       [\<lparr>handle = 12, win_r = 1 / 2, win_g = 3 / 4, win_b = 1 / 2,
         win_x = 425, win_y = 350, win_w = 150, win_h = 100\<rparr>,
        \<lparr>handle = 13, win_r = 1 / 2, win_g = 1 / 2, win_b = 1 / 2,
         win_x = 450, win_y = 325, win_w = 100, win_h = 150\<rparr>] \<and>
     length (wins s') = 3 \<and> rng s' = 29 \<and>
     clear_colors (new_calls (startup closing_world) s') = [(1 / 4, 1 / 2, 1 / 2)]"
proof -
  let ?pre = "[\<lparr>handle = 11, win_r = 1 / 4, win_g = 1 / 2, win_b = 1 / 2,
       win_x = 450, win_y = 325, win_w = 100, win_h = (150::int)\<rparr>]"
  let ?c = "\<lparr>handle = 12, win_r = 1 / 2, win_g = 3 / 4, win_b = 1 / 2,
       win_x = 425, win_y = 350, win_w = 150, win_h = (100::int)\<rparr>"
  let ?post = "[\<lparr>handle = 13, win_r = 1 / 2, win_g = 1 / 2, win_b = 1 / 2,
       win_x = 450, win_y = 325, win_w = 100, win_h = (150::int)\<rparr>]"
  obtain s' where f: "frame closing_world (startup closing_world) = Inr s'"
    using frame_defined [OF closing_workarea demo_workarea(2,3)] by blast
  have w: "wins (startup closing_world) = ?pre @ ?c # ?post"
    by (simp add: startup_closing)
  have sc: "should_close closing_world f h \<longleftrightarrow> h = 12" for f h
    by (simp add: closing_world_def)
  have c: "should_close closing_world (frame_no (startup closing_world)) (handle ?c)"
    by (simp add: sc)
  from close_request_ends_pass [OF w c f, of 3] f show ?thesis
    by (simp add: startup_closing color_def sc)
qed

subsection \<open>C4: frame pacing\<close>

text \<open>
  C4: the sleeps of a frame are the single sleep of the target period minus the time
  elapsed between the frame's own two clock readings when that time is below the target
  period, and none otherwise; every duration slept is positive. Nothing of an earlier frame
  enters.
\<close>

theorem frame_pacing:
  assumes "frame e s = Inr s'"
  shows "sleeps (new_calls s s') =
           (let elapsed = clock_now e (2 * frame_no s + 1) - clock_now e (2 * frame_no s)
            in if elapsed < 1 / TARGET_FPS then [1 / TARGET_FPS - elapsed] else []) \<and>
         list_all (\<lambda>d. 0 < d) (sleeps (new_calls s s'))"
proof -
  from assms obtain ws' quit' n' calls where
    wp: "window_pass e (frame_no s) (wins s)
       (foldl key_callback (g_quit s) (key_events e (frame_no s))) (rng s)
     = Inr (ws', quit', n', calls)"
    and nc: "new_calls s s' = glfwPollEvents # calls @
             pacing (clock_now e (2 * frame_no s)) (clock_now e (2 * frame_no s + 1))"
    by (rule frame_new_calls)
  from window_pass_calls [OF wp] have "sleeps calls = []" by simp
  with nc show ?thesis by (simp add: sleeps_pacing Let_def)
qed


text \<open>
  The first frame of the example world takes a hundredth of a second and sleeps the rest
  of the sixtieth; the first frame of the slow world takes a second and does not sleep.
\<close>

theorem frame_pacing_witness:
  "(\<exists>s'. frame demo_world (startup demo_world) = Inr s' \<and>
         sleeps (new_calls (startup demo_world) s') = [1 / 150]) \<and>
   (\<exists>s'. frame slow_world (startup slow_world) = Inr s' \<and>
         sleeps (new_calls (startup slow_world) s') = [])"
proof -
  obtain s1 where f1: "frame demo_world (startup demo_world) = Inr s1"
    using frame_defined [OF demo_workarea] by blast
  have "clock_now demo_world (2 * frame_no (startup demo_world) + 1)
        - clock_now demo_world (2 * frame_no (startup demo_world)) = 1 / 100"
    using startup_flags [of demo_world] by (simp add: demo_world_def)
  with frame_pacing [OF f1] have "sleeps (new_calls (startup demo_world) s1) = [1 / 150]"
    by (simp add: TARGET_FPS_def)
  with f1 have fast: "\<exists>s'. frame demo_world (startup demo_world) = Inr s' \<and>
         sleeps (new_calls (startup demo_world) s') = [1 / 150]"
    by blast
  obtain s2 where f2: "frame slow_world (startup slow_world) = Inr s2"
    using frame_defined [OF slow_workarea demo_workarea(2,3)] by blast
  have "clock_now slow_world (2 * frame_no (startup slow_world) + 1)
        - clock_now slow_world (2 * frame_no (startup slow_world)) = 1"
    using startup_flags [of slow_world] by (simp add: slow_world_def)
  with frame_pacing [OF f2] have "sleeps (new_calls (startup slow_world) s2) = []"
    by (simp add: TARGET_FPS_def)
  with f2 have slow: "\<exists>s'. frame slow_world (startup slow_world) = Inr s' \<and>
         sleeps (new_calls (startup slow_world) s') = []"
    by blast
  from fast slow show ?thesis by (rule conjI)
qed

subsection \<open>C5: resize and reposition are called exactly on a change\<close>

text \<open>
  C5: in the step of a window, the resize calls made are the one call with the new size
  when the new size differs from the stored one, and none otherwise; the reposition calls
  made are the one call with the new position when the new position differs from the
  stored one, and none otherwise. The two tests are independent.
\<close>

theorem update_calls_iff_changed:
  assumes "step_win e n w = Inr (w', calls)"
  shows "filter is_resize calls =
           (if (win_w w', win_h w') \<noteq> (win_w w, win_h w)
            then [glfwSetWindowSize (handle w) (win_w w') (win_h w')] else []) \<and>
         filter is_reposition calls =
           (if (win_x w', win_y w') \<noteq> (win_x w, win_y w)
            then [glfwSetWindowPos (handle w) (win_x w') (win_y w')] else [])"
  using step_win_updates [OF assms] by simp


text \<open>
  A step in a world whose position jitter is zero: the size changes and is set, the
  position does not change and is not set.
\<close>

theorem update_calls_iff_changed_witness:
  "step_win calm_world 25
     \<lparr>handle = 11, win_r = 1 / 4, win_g = 1 / 2, win_b = 1 / 2,
      win_x = 450, win_y = 325, win_w = 100, win_h = 150\<rparr>
   = Inr (\<lparr>handle = 11, win_r = 1 / 4, win_g = 1 / 2, win_b = 1 / 2,
           win_x = 450, win_y = 325, win_w = 95, win_h = 145\<rparr>,
          [glfwSetWindowSize 11 95 145, glfwMakeContextCurrent 11, glViewport 0 0 95 145,
           glClearColor (1 / 4) (1 / 2) (1 / 2) 1, glClear, glfwSwapBuffers 11]) \<and>
   filter is_resize
     [glfwSetWindowSize 11 95 145, glfwMakeContextCurrent 11, glViewport 0 0 95 145,
      glClearColor (1 / 4) (1 / 2) (1 / 2) 1, glClear, glfwSwapBuffers 11]
   = [glfwSetWindowSize 11 95 145] \<and>
   filter is_reposition
     [glfwSetWindowSize 11 95 145, glfwMakeContextCurrent 11, glViewport 0 0 95 145,
      glClearColor (1 / 4) (1 / 2) (1 / 2) 1, glClear, glfwSwapBuffers 11]
   = []"
proof -
  have st: "step_win calm_world 25
     \<lparr>handle = 11, win_r = 1 / 4, win_g = 1 / 2, win_b = 1 / 2,
      win_x = 450, win_y = 325, win_w = 100, win_h = 150\<rparr>
   = Inr (\<lparr>handle = 11, win_r = 1 / 4, win_g = 1 / 2, win_b = 1 / 2,
           win_x = 450, win_y = 325, win_w = 95, win_h = 145\<rparr>,
          [glfwSetWindowSize 11 95 145, glfwMakeContextCurrent 11, glViewport 0 0 95 145,
           glClearColor (1 / 4) (1 / 2) (1 / 2) 1, glClear, glfwSwapBuffers 11])"
    by (simp add: step_win_def calm_world_def demo_world_def clamp_def MIN_SIZE_def
        MAX_SIZE_def Let_def)
  from update_calls_iff_changed [OF st] st show ?thesis by simp
qed

subsection \<open>C6: degraded initialisation\<close>



subsection \<open>C7: the initial layout\<close>




subsection \<open>C8: the colour of a record never changes\<close>

text \<open>
  C8: the main loop, on any number of frames, leaves the colour of every record as it
  was; a frame leaves the colours as they were and clears to exactly the colours of the
  records it renders (those before the first window that wants to close), in list order.
\<close>

theorem color_immutable:
  "(main_loop fuel e s = Inr s' \<longrightarrow> map color (wins s') = map color (wins s)) \<and>
   (frame e s = Inr s'' \<longrightarrow>
      map color (wins s'') = map color (wins s) \<and>
      clear_colors (new_calls s s'') =
        map color (takeWhile (\<lambda>w. \<not> should_close e (frame_no s) (handle w)) (wins s)))"
  using main_loop_colors [of fuel e s s'] frame_colors(1,3) [of e s s''] by blast

text \<open>
  The colours of the three records of the example world, after three frames and as
  rendered by the first frame.
\<close>

theorem color_immutable_witness:
  "\<exists>s' s''. main_loop 3 demo_world (startup demo_world) = Inr s' \<and>
     map color (wins s') = [(1 / 4, 1 / 2, 1 / 2), (1 / 2, 3 / 4, 1 / 2), (1 / 2, 1 / 2, 1 / 2)] \<and>
     frame demo_world (startup demo_world) = Inr s'' \<and>
     clear_colors (new_calls (startup demo_world) s'') =
       [(1 / 4, 1 / 2, 1 / 2), (1 / 2, 3 / 4, 1 / 2), (1 / 2, 1 / 2, 1 / 2)]"
proof -
  obtain s' where run: "main_loop 3 demo_world (startup demo_world) = Inr s'"
    using main_loop_defined [OF demo_workarea] by blast
  obtain s'' where f: "frame demo_world (startup demo_world) = Inr s''"
    using frame_defined [OF demo_workarea] by blast
  have nc: "\<not> should_close demo_world f h" for f h by (simp add: demo_world_def)
  from color_immutable [of 3 demo_world "startup demo_world" s' s''] run f
  have "map color (wins s') = [(1 / 4, 1 / 2, 1 / 2), (1 / 2, 3 / 4, 1 / 2), (1 / 2, 1 / 2, 1 / 2)]"
    "clear_colors (new_calls (startup demo_world) s'') =
       [(1 / 4, 1 / 2, 1 / 2), (1 / 2, 3 / 4, 1 / 2), (1 / 2, 1 / 2, 1 / 2)]"
    by (simp_all add: startup_demo_wins color_def nc)
  with run f show ?thesis by (intro exI [of _ s'] exI [of _ s''] conjI)
qed

subsection \<open>C9: the exit code\<close>

text \<open>
  C9: when the windowing library initialises, \<open>main\<close> returns no code other than 0, and it
  returns 0 as soon as the main loop has left with the quit flag set. When the library
  fails to initialise, \<open>main\<close> returns 1 after the report on the error stream, with no
  request to create a window.
\<close>

theorem exit_codes:
  "(if init_ok e then
      (\<forall>code tr. main fuel e = Exit code tr \<longrightarrow> code = 0) \<and>
      (\<forall>s. main_loop fuel e (startup e) = Inr s \<and> g_quit s \<longrightarrow>
         main fuel e = Exit 0 (trace s @ cleanup (wins s)))
    else
      (\<exists>tr. main fuel e = Exit 1 tr \<and> filter is_create tr = [] \<and>
         last tr = fprintf_stderr (''Failed to init GLFW'' @ [newline])))"
proof (cases "init_ok e")
  case True
  have "code = 0" if "main fuel e = Exit code tr" for code tr
    using that True by (rule main_Exit)
  moreover have "main fuel e = Exit 0 (trace s @ cleanup (wins s))"
    if "main_loop fuel e (startup e) = Inr s \<and> g_quit s" for s
    using that True by (simp add: main_def)
  ultimately show ?thesis using True by simp
next
  case False
  then show ?thesis by (simp add: main_def init_calls_def)
qed

text \<open>
  The example world returns 0; the same world with a library that fails to initialise
  returns 1.
\<close>

theorem exit_codes_witness:
  "init_ok demo_world \<and> (\<exists>s::state. main 2 demo_world = Exit 0 (trace s @ cleanup (wins s))) \<and>
   \<not> init_ok no_glfw_world \<and>
   (\<exists>tr. main 2 no_glfw_world = Exit 1 tr \<and> filter is_create tr = [])"
proof -
  obtain s2 where q: "g_quit s2"
    and m2: "main_loop (Suc (Suc 0)) demo_world (startup demo_world) = Inr s2"
    by (rule demo_run [of 0])
  have i: "init_ok demo_world" "\<not> init_ok no_glfw_world"
    by (simp_all add: demo_world_def no_glfw_world_def)
  from exit_codes [of demo_world 2] i(1) m2 q
  have "main 2 demo_world = Exit 0 (trace s2 @ cleanup (wins s2))"
    by (simp add: numeral_2_eq_2)
  then have ok: "\<exists>s::state. main 2 demo_world = Exit 0 (trace s @ cleanup (wins s))"
    by (rule exI)
  from exit_codes [of no_glfw_world 2] i(2)
  have bad: "\<exists>tr. main 2 no_glfw_world = Exit 1 tr \<and> filter is_create tr = []"
    by auto
  from i(1) ok i(2) bad show ?thesis by simp
qed

subsection \<open>C10: the position clamps are well defined\<close>



end
